theory Spec2Isabelle
  imports Main "HOL-Library.Sublist" "HOL-Library.AList" "HOL-Library.Multiset"
begin

section \<open>Errors, absent values and string primitives\<close>

text \<open>
  Every \<^verbatim>\<open>throw\<close> of the source is a value. \<open>HL7FatalError code message\<close> is the
  library's own exception class, \<open>PlainError message\<close> is \<^verbatim>\<open>new Error(message)\<close>,
  \<open>TypeError\<close> is what the runtime raises when a member of \<^verbatim>\<open>undefined\<close> is read,
  and \<open>DecodeHexFailure\<close> stands for whatever the external hex decoder may raise.
\<close>

datatype error =
    HL7FatalError nat string
  | PlainError string
  | TypeError
  | DecodeHexFailure

fun isHL7FatalError :: "error + 'a \<Rightarrow> bool" where
  "isHL7FatalError (Inl (HL7FatalError c m)) = True"
| "isHL7FatalError _ = False"

text \<open>
  The argument \<^verbatim>\<open>text\<close> of \<^verbatim>\<open>escape\<close> and \<^verbatim>\<open>unescape\<close> is declared \<^verbatim>\<open>string\<close>, but both
  functions test it against \<^verbatim>\<open>null\<close>, so the three run-time possibilities are kept apart.
\<close>

datatype text_arg = Null | Undefined | Text string

text \<open>
  Strings are lists of code units. \<open>slice s a b\<close> is \<^verbatim>\<open>s.slice(a, b)\<close> for the
  non-negative arguments the source passes: an end before the start gives the empty
  string and offsets beyond the end are clipped.
\<close>

definition slice :: "'a list \<Rightarrow> nat \<Rightarrow> nat \<Rightarrow> 'a list" where
  "slice s a b = take (b - a) (drop a s)"

text \<open>\<^verbatim>\<open>s.indexOf(pat)\<close>: the first offset at which \<open>pat\<close> occurs, or \<open>-1\<close>.\<close>

fun indexOfFrom :: "string \<Rightarrow> string \<Rightarrow> nat \<Rightarrow> int" where
  "indexOfFrom [] pat i = (if pat = [] then int i else - 1)"
| "indexOfFrom (c # cs) pat i =
     (if prefix pat (c # cs) then int i else indexOfFrom cs pat (i + 1))"

definition indexOf :: "string \<Rightarrow> string \<Rightarrow> int" where
  "indexOf s pat = indexOfFrom s pat 0"

text \<open>
  \<^verbatim>\<open>s.substring(start, end)\<close>: both arguments are clamped into \<open>[0, length s]\<close> and
  swapped when the first exceeds the second.
\<close>

definition substring :: "string \<Rightarrow> int \<Rightarrow> int \<Rightarrow> string" where
  "substring s start end =
     (let len = int (length s);
          a = max 0 (min start len);
          b = max 0 (min end len)
      in take (nat (max a b - min a b)) (drop (nat (min a b)) s))"

text \<open>\<^verbatim>\<open>s.replace(pat, new)\<close> with a string pattern: only the first occurrence is replaced.\<close>

fun replaceFirst :: "string \<Rightarrow> string \<Rightarrow> string \<Rightarrow> string" where
  "replaceFirst [] pat new = (if pat = [] then new else [])"
| "replaceFirst (c # cs) pat new =
     (if prefix pat (c # cs) then new @ drop (length pat) (c # cs)
      else c # replaceFirst cs pat new)"

definition CR :: char where "CR = CHR 0x0D"
definition LF :: char where "LF = CHR 0x0A"

section \<open>builder/modules/rootBase.ts: the delimiter codec\<close>

text \<open>
  The constructor concatenates six one-character options into \<^verbatim>\<open>_delimiters\<close> and the
  methods read it by position through the \<^verbatim>\<open>Delimiters\<close> enumeration (Segment, Field,
  Component, Repetition, Escape, SubComponent). The record has one field per position.
\<close>

record delimiters =
  delimSegment :: char
  delimField :: char
  delimComponent :: char
  delimRepetition :: char
  delimEscape :: char
  delimSubComponent :: char

definition defaultDelimiters :: delimiters where
  "defaultDelimiters =
     \<lparr>delimSegment = CHR 0x0D, delimField = CHR ''|'', delimComponent = CHR ''^'',
      delimRepetition = CHR ''~'', delimEscape = CHR 0x5C, delimSubComponent = CHR ''&''\<rparr>"

text \<open>
  \<^verbatim>\<open>_makeMatchEscape\<close> builds the alternation of the five delimiters, each passed through
  \<^verbatim>\<open>escapeForRegExp\<close> so that it stands for itself: the pattern matches exactly one
  character that is one of the five.
\<close>

definition matchEscape :: "delimiters \<Rightarrow> char \<Rightarrow> bool" where
  "matchEscape d c \<longleftrightarrow>
     c = delimEscape d \<or> c = delimField d \<or> c = delimRepetition d \<or>
     c = delimComponent d \<or> c = delimSubComponent d"

text \<open>
  The replacement callback of \<^verbatim>\<open>escape\<close>. The \<^verbatim>\<open>switch\<close> takes the first case that equals
  the match; \<^verbatim>\<open>ch\<close> starts as the empty string, so the test \<^verbatim>\<open>typeof ch !== 'undefined'\<close>
  always holds and the \<^verbatim>\<open>throw\<close> after it is never reached.
\<close>

definition escapeReplacer :: "delimiters \<Rightarrow> char \<Rightarrow> string" where
  "escapeReplacer d match =
     (let ch = (if match = delimEscape d then ''E''
                else if match = delimField d then ''F''
                else if match = delimRepetition d then ''R''
                else if match = delimComponent d then ''S''
                else if match = delimSubComponent d then ''T''
                else '''')
      in [delimEscape d] @ ch @ [delimEscape d])"

fun replaceEscape :: "delimiters \<Rightarrow> string \<Rightarrow> string" where
  "replaceEscape d [] = []"
| "replaceEscape d (c # cs) =
     (if matchEscape d c then escapeReplacer d c else [c]) @ replaceEscape d cs"

definition escape :: "delimiters \<Rightarrow> text_arg \<Rightarrow> error + string" where
  "escape d text =
     (case text of
        Null \<Rightarrow> Inl (HL7FatalError 500 ''text must be passed in escape function.'')
      | Undefined \<Rightarrow> Inl TypeError
      | Text s \<Rightarrow> Inr (replaceEscape d s))"

text \<open>
  The replacement callback of \<^verbatim>\<open>unescape\<close>, on a whole match. \<^verbatim>\<open>decodeHexString\<close> lives in
  \<^verbatim>\<open>utils/utils.js\<close>, outside the files at hand, and is a parameter: \<open>None\<close> when it raises.
\<close>

definition unescapeReplacer ::
  "delimiters \<Rightarrow> (string \<Rightarrow> string option) \<Rightarrow> string \<Rightarrow> error + string" where
  "unescapeReplacer d decodeHexString match =
     (let code = slice match 1 2 in
      if code = ''E'' then Inr [delimEscape d]
      else if code = ''F'' then Inr [delimField d]
      else if code = ''R'' then Inr [delimRepetition d]
      else if code = ''S'' then Inr [delimComponent d]
      else if code = ''T'' then Inr [delimSubComponent d]
      else if code = ''X'' then
        (case decodeHexString (slice match 2 (length match - 1)) of
           None \<Rightarrow> Inl DecodeHexFailure
         | Some r \<Rightarrow> Inr r)
      else if code = ''C'' \<or> code = ''H'' \<or> code = ''M'' \<or> code = ''N'' \<or> code = ''Z''
        then Inr ''''
      else Inr match)"

lemma length_dropWhile_tail:
  "dropWhile P cs = e # rest \<Longrightarrow> length rest < length cs"
proof -
  assume a: "dropWhile P cs = e # rest"
  have "length (dropWhile P cs) \<le> length cs" by (rule length_dropWhile_le)
  with a show ?thesis by simp
qed

text \<open>
  \<^verbatim>\<open>text.replace(_matchUnescape, callback)\<close> with the global pattern
  \<^verbatim>\<open>esc [^esc]* esc\<close>: the scan goes left to right; at an escape character the match
  runs to the next escape character, is replaced by the callback's result, and the scan
  resumes after it. An escape character with no later one matches nothing, and then no
  later position can match either.
\<close>

function replaceUnescape ::
  "delimiters \<Rightarrow> (string \<Rightarrow> string option) \<Rightarrow> string \<Rightarrow> error + string" where
  "replaceUnescape d dh [] = Inr []"
| "replaceUnescape d dh (c # cs) =
     (if c = delimEscape d then
        (case dropWhile (\<lambda>x. x \<noteq> delimEscape d) cs of
           [] \<Rightarrow> Inr (c # cs)
         | e # rest \<Rightarrow>
             (case unescapeReplacer d dh (c # takeWhile (\<lambda>x. x \<noteq> delimEscape d) cs @ [e]) of
                Inl err \<Rightarrow> Inl err
              | Inr r \<Rightarrow>
                  (case replaceUnescape d dh rest of
                     Inl err \<Rightarrow> Inl err
                   | Inr t \<Rightarrow> Inr (r @ t))))
      else (case replaceUnescape d dh cs of
              Inl err \<Rightarrow> Inl err
            | Inr t \<Rightarrow> Inr (c # t)))"
  by pat_completeness auto
termination
  by (relation "measure (\<lambda>(d, dh, s). length s)") (auto dest: length_dropWhile_tail)

definition unescape ::
  "delimiters \<Rightarrow> (string \<Rightarrow> string option) \<Rightarrow> text_arg \<Rightarrow> error + string" where
  "unescape d decodeHexString text =
     (case text of
        Null \<Rightarrow> Inl (HL7FatalError 500 ''text must be passed in unescape function.'')
      | Undefined \<Rightarrow> Inl TypeError
      | Text s \<Rightarrow>
          if delimEscape d \<notin> set s then Inr s
          else replaceUnescape d decodeHexString s)"

text \<open>A hex decoder that always raises, for inputs on which the decoder is never called.\<close>

definition noHexDecoder :: "string \<Rightarrow> string option" where
  "noHexDecoder s = None"

section \<open>builder/modules/rootBase.ts: the segment splitter\<close>

definition boundaryNames :: "string list" where
  "boundaryNames = [''FHS'', ''BHS'', ''MSH'', ''BTS'', ''FTS'']"

text \<open>
  One attempt of the pattern \<^verbatim>\<open>(\n|\r|)(NAME)\|\<close> at the start of \<open>s\<close>: the alternatives
  of the first group are tried in their order, line feed, carriage return, nothing. The
  result is the matched text \<^verbatim>\<open>m[0]\<close>. The bar is the literal of the pattern, whatever
  field separator the instance was built with.
\<close>

definition regexMatchAt :: "string \<Rightarrow> string \<Rightarrow> string option" where
  "regexMatchAt name s =
     (case s of
        [] \<Rightarrow> None
      | c # cs \<Rightarrow>
          if c = LF \<and> prefix (name @ ''|'') cs then Some (c # name @ ''|'')
          else if c = CR \<and> prefix (name @ ''|'') cs then Some (c # name @ ''|'')
          else if prefix (name @ ''|'') (c # cs) then Some (name @ ''|'')
          else None)"

text \<open>The correction of \<^verbatim>\<open>m.index\<close> by the line break found in the matched text.\<close>

definition adjustIndex :: "string \<Rightarrow> nat \<Rightarrow> nat" where
  "adjustIndex s index =
     (if sublist [CR, LF] s then index + 2
      else if LF \<in> set s then index + 1
      else if CR \<in> set s then index + 1
      else index)"

lemma regexMatchAt_Some:
  "regexMatchAt name s = Some m \<Longrightarrow> m \<noteq> [] \<and> prefix m s"
  by (auto simp: regexMatchAt_def split: list.splits if_splits)

text \<open>
  The \<^verbatim>\<open>while ((m = regex.exec(data)) != null)\<close> loop of a global pattern: \<open>s\<close> is the
  text from \<^verbatim>\<open>lastIndex\<close> on. A match at the current offset is recorded and the scan
  resumes after it; otherwise the scan moves one character on. The offsets are pushed as
  decimal strings and read back with \<^verbatim>\<open>parseInt\<close>, which is the identity on them, so the
  list holds the numbers.
\<close>

function regexExecLoop :: "string \<Rightarrow> nat \<Rightarrow> string \<Rightarrow> nat list" where
  "regexExecLoop name lastIndex s =
     (case regexMatchAt name s of
        Some m \<Rightarrow>
          adjustIndex m lastIndex #
          regexExecLoop name (lastIndex + length m) (drop (length m) s)
      | None \<Rightarrow>
          (case s of
             [] \<Rightarrow> []
           | c # cs \<Rightarrow> regexExecLoop name (lastIndex + 1) cs))"
  by pat_completeness auto
termination
proof (relation "measure (\<lambda>(name, lastIndex, s). length s)")
  show "wf (measure (\<lambda>(name, lastIndex, s). length s))" by simp
next
  fix name :: string and lastIndex :: nat and s m :: string
  assume "regexMatchAt name s = Some m"
  then have "m \<noteq> []" "prefix m s" using regexMatchAt_Some by blast+
  then have "length (drop (length m) s) < length s"
    by (cases m; cases s) (auto simp: prefix_length_le)
  then show "((name, lastIndex + length m, drop (length m) s), (name, lastIndex, s))
        \<in> measure (\<lambda>(name, lastIndex, s). length s)"
    by simp
next
  fix name :: string and lastIndex :: nat and s :: string and c :: char and cs :: string
  assume "s = c # cs"
  then show "((name, lastIndex + 1, cs), (name, lastIndex, s))
        \<in> measure (\<lambda>(name, lastIndex, s). length s)"
    by simp
qed

declare regexExecLoop.simps [simp del]

fun getSegIndexes :: "string list \<Rightarrow> string \<Rightarrow> nat list \<Rightarrow> nat list" where
  "getSegIndexes [] data list = list"
| "getSegIndexes (name # names) data list =
     getSegIndexes names data (list @ regexExecLoop name 0 data)"

text \<open>
  The \<^verbatim>\<open>for\<close> loop of \<^verbatim>\<open>split\<close>: entry \<open>i\<close> of the sorted offsets is a start, the next
  entry is its end, and the last entry ends at \<^verbatim>\<open>data.length\<close>.
\<close>

fun segmentRanges :: "nat \<Rightarrow> nat list \<Rightarrow> (nat \<times> nat) list" where
  "segmentRanges len [] = []"
| "segmentRanges len [start] = [(start, len)]"
| "segmentRanges len (start # end # rest) = (start, end) # segmentRanges len (end # rest)"

definition split :: "string \<Rightarrow> string list \<Rightarrow> string list" where
  "split data segments =
     (let getSegIndex = sort (getSegIndexes boundaryNames data [])
      in segments @ map (\<lambda>(start, end). slice data start end)
                        (segmentRanges (length data) getSegIndex))"

text \<open>A name that contains no line break, as each of the five boundary names.\<close>

definition noLineBreak :: "string \<Rightarrow> bool" where
  "noLineBreak name \<longleftrightarrow> CR \<notin> set name \<and> LF \<notin> set name"

text \<open>The two-message text of the specification and its two segments.\<close>

definition twoMessages :: string where
  "twoMessages =
     ''MSH|^~'' @ [CHR 0x5C] @ ''&|X'' @ [CR] @ ''MSH|^~'' @ [CHR 0x5C] @ ''&|Y''"

definition firstMessage :: string where
  "firstMessage = ''MSH|^~'' @ [CHR 0x5C] @ ''&|X'' @ [CR]"

definition secondMessage :: string where
  "secondMessage = ''MSH|^~'' @ [CHR 0x5C] @ ''&|Y''"

section \<open>specification/2.7.ts: the MSH header check\<close>

text \<open>
  \<^verbatim>\<open>HL7_MSH_MESSAGE_TYPE\<close> declares \<^verbatim>\<open>msh_9_1\<close> and \<^verbatim>\<open>msh_9_2\<close>; \<^verbatim>\<open>checkMSH\<close> also reads
  \<^verbatim>\<open>msh_9_3\<close>. The function tests each subfield with \<^verbatim>\<open>typeof x === 'undefined'\<close>, so
  every subfield is optional here: \<open>None\<close> is \<^verbatim>\<open>undefined\<close>.
\<close>

record HL7_MSH_MESSAGE_TYPE =
  msh_9_1 :: "string option"
  msh_9_2 :: "string option"
  msh_9_3 :: "string option"

record HL7_2_7_MSH =
  msh_9 :: HL7_MSH_MESSAGE_TYPE
  msh_10 :: "string option"

definition checkMSH :: "HL7_2_7_MSH \<Rightarrow> error + HL7_2_7_MSH" where
  "checkMSH msh =
     (case (msh_9_1 (msh_9 msh), msh_9_2 (msh_9 msh), msh_9_3 (msh_9 msh)) of
        (Some m1, Some m2, Some m3) \<Rightarrow>
          if length m1 \<noteq> 3 then Inl (PlainError ''MSH.9.1 must be 3 characters in length.'')
          else if length m2 \<noteq> 3 then Inl (PlainError ''MSH.9.2 must be 3 characters in length.'')
          else if length m3 \<noteq> 7 then Inl (PlainError ''MSH.9.3 must be 7 characters in length.'')
          else (case msh_10 msh of
                  None \<Rightarrow> Inl (PlainError ''MSH.9.10 must be defined.'')
                | Some m10 \<Rightarrow>
                    if length m10 > 199
                    then Inl (PlainError ''MSH.9.10 must less than 199 characters.'')
                    else Inr msh)
      | _ \<Rightarrow> Inl (PlainError ''MSH.1 must be one character in length.''))"

section \<open>The outbound channel (class HL7Outbound)\<close>

text \<open>
  Modelled from the spec: the framing constants of \<^verbatim>\<open>utils/constants.js\<close>, which is not
  among the files at hand. The start marker is the single byte 0x0B and the end marker
  the two bytes 0x1C 0x0D; the source's \<^verbatim>\<open>indexOfFSCR + 2\<close> agrees with the length of
  the latter.
\<close>

definition PROTOCOL_MLLP_HEADER :: string where
  "PROTOCOL_MLLP_HEADER = [CHR 0x0B]"

definition PROTOCOL_MLLP_FOOTER :: string where
  "PROTOCOL_MLLP_FOOTER = [CHR 0x1C, CHR 0x0D]"

text \<open>
  Modelled from the spec: the enumeration \<^verbatim>\<open>ReadyState\<close> of \<^verbatim>\<open>utils/enum.js\<close>, with the
  five states the specification lists.
\<close>

datatype ReadyState = CONNECTING | OPEN | CONNECTED | CLOSING | CLOSED

datatype event =
    Ready | ClientSent nat | ClientAcknowledged nat | ClientClose | ErrorEvent | TimeoutEvent

text \<open>
  A pooled socket, as far as the channel reads it. The pool \<^verbatim>\<open>_sockets\<close> is a \<^verbatim>\<open>Map\<close>,
  which iterates in insertion order: an association list with distinct keys, where
  \<^verbatim>\<open>set\<close> overwrites in place or appends and \<^verbatim>\<open>delete\<close> removes the key.
  The source reads \<^verbatim>\<open>socket.lastUsed\<close> and never writes it: on the sockets that
  \<^verbatim>\<open>net.connect\<close> and \<^verbatim>\<open>tls.connect\<close> return the property is \<^verbatim>\<open>undefined\<close>, which is
  \<open>None\<close>.
\<close>

record socket =
  lastUsed :: "int option"
  destroyed :: bool

type_synonym sockets = "(string \<times> socket) list"

text \<open>
  The options the handlers read: \<^verbatim>\<open>this._opt\<close> of the channel and \<^verbatim>\<open>this._main._opt\<close> of
  the parent client. \<open>None\<close> is \<^verbatim>\<open>undefined\<close>.
\<close>

record listenerOptions =
  opt_maxAttempts :: "int option"
  opt_retryHigh :: "int option"
  opt_retryLow :: "int option"
  opt_maxConnections :: int

record clientOptions =
  main_maxAttempts :: "int option"
  main_retryHigh :: "int option"
  main_retryLow :: "int option"

text \<open>
  The fields of the object. \<open>handler\<close> tells whether \<^verbatim>\<open>_handler\<close> is defined; what the
  channel does to the outside is logged: \<open>events\<close> holds the emitted events and
  \<open>handled\<close> the decoded texts passed to the handler, both in order. A timer is
  present or absent; \<open>retryTimer\<close> holds the delay it was armed with.
\<close>

record outbound =
  awaitingResponse :: bool
  connectionTimer :: "nat option"
  handler :: bool
  main_opt :: clientOptions
  nodeId :: string
  opt :: listenerOptions
  retryCount :: nat
  retryTimer :: "int option"
  sockets :: sockets
  readyState :: ReadyState
  responseBuffer :: string
  initialConnection :: bool
  acknowledged :: nat
  sent :: nat
  events :: "event list"
  handled :: "string list"

text \<open>The constructor; \<open>randomId\<close> is the result of \<^verbatim>\<open>randomString(5)\<close>.\<close>

definition newOutbound ::
  "clientOptions \<Rightarrow> listenerOptions \<Rightarrow> bool \<Rightarrow> string \<Rightarrow> outbound" where
  "newOutbound client props hasHandler randomId =
     \<lparr>awaitingResponse = False, connectionTimer = None, handler = hasHandler,
      main_opt = client, nodeId = randomId, opt = props, retryCount = 0, retryTimer = None,
      sockets = [], readyState = CONNECTING, responseBuffer = [], initialConnection = False,
      acknowledged = 0, sent = 0, events = [], handled = []\<rparr>"

definition emit :: "event \<Rightarrow> outbound \<Rightarrow> outbound" where
  "emit e st = st\<lparr>events := events st @ [e]\<rparr>"

definition close :: "outbound \<Rightarrow> outbound" where
  "close st = emit ClientClose (st\<lparr>readyState := CLOSING, sockets := []\<rparr>)"


subsection \<open>The data handler\<close>

text \<open>
  One round of the \<^verbatim>\<open>while (this._responseBuffer !== '')\<close> loop. \<^verbatim>\<open>indexOfFSCR\<close> is at
  least \<open>-1\<close>, so the first argument of \<^verbatim>\<open>slice\<close> is at least 1. The handler and the
  constructor of the response object are external and taken to return; one data event is
  processed without another one interleaving at the \<^verbatim>\<open>await\<close>.
\<close>

definition dataLoopBody :: "outbound \<Rightarrow> outbound" where
  "dataLoopBody st =
     (let indexOfVT = indexOf (responseBuffer st) PROTOCOL_MLLP_HEADER;
          indexOfFSCR = indexOf (responseBuffer st) PROTOCOL_MLLP_FOOTER;
          loadedMessage = substring (responseBuffer st) indexOfVT (indexOfFSCR + 2);
          st1 = st\<lparr>responseBuffer :=
                     slice (responseBuffer st) (nat (indexOfFSCR + 2))
                       (length (responseBuffer st))\<rparr>;
          loadedMessage1 = replaceFirst loadedMessage PROTOCOL_MLLP_HEADER []
      in if sublist PROTOCOL_MLLP_FOOTER loadedMessage1 then
           (let loadedMessage2 = replaceFirst loadedMessage1 PROTOCOL_MLLP_FOOTER []
            in if handler st1 then
                 (emit (ClientAcknowledged (acknowledged st1 + 1))
                    (st1\<lparr>acknowledged := acknowledged st1 + 1\<rparr>))
                 \<lparr>handled := handled st1 @ [loadedMessage2]\<rparr>
               else st1)
         else st1)"

lemma indexOfFrom_lower: "- 1 \<le> indexOfFrom s pat i"
  by (induction s pat i rule: indexOfFrom.induct) auto

lemma slice_shrinks:
  "s \<noteq> [] \<Longrightarrow> length (slice s (nat (indexOf s pat + 2)) (length s)) < length s"
proof -
  assume "s \<noteq> []"
  have "- 1 \<le> indexOf s pat" unfolding indexOf_def by (rule indexOfFrom_lower)
  then have "0 < nat (indexOf s pat + 2)" by simp
  with \<open>s \<noteq> []\<close> show ?thesis by (simp add: slice_def)
qed

lemma dataLoopBody_buffer:
  "responseBuffer (dataLoopBody st) =
     slice (responseBuffer st) (nat (indexOf (responseBuffer st) PROTOCOL_MLLP_FOOTER + 2))
       (length (responseBuffer st))"
  by (simp add: dataLoopBody_def Let_def emit_def)

function dataLoop :: "outbound \<Rightarrow> outbound" where
  "dataLoop st = (if responseBuffer st = [] then st else dataLoop (dataLoopBody st))"
  by pat_completeness auto
termination
  by (relation "measure (\<lambda>st. length (responseBuffer st))")
     (simp_all add: dataLoopBody_buffer slice_shrinks)

declare dataLoop.simps [simp del]

definition onData :: "outbound \<Rightarrow> string \<Rightarrow> outbound" where
  "onData st buffer =
     close (dataLoop (st\<lparr>awaitingResponse := False,
                          responseBuffer := responseBuffer st @ buffer\<rparr>))"

subsection \<open>The timeout handler\<close>






subsection \<open>The socket pool\<close>












subsection \<open>Sample configurations\<close>

definition exampleClientOptions :: clientOptions where
  "exampleClientOptions =
     \<lparr>main_maxAttempts = Some 10, main_retryHigh = Some 30000, main_retryLow = Some 1000\<rparr>"

definition exampleListenerOptions :: listenerOptions where
  "exampleListenerOptions =
     \<lparr>opt_maxAttempts = None, opt_retryHigh = None, opt_retryLow = None,
      opt_maxConnections = 10\<rparr>"





section \<open>Properties of the delimiter codec\<close>

lemma replaceUnescape_no_escape:
  "delimEscape d \<notin> set s \<Longrightarrow> replaceUnescape d dh s = Inr s"
  by (induction s) auto

lemma slice_code_letter: "slice [a, k, b] (Suc 0) 2 = [k]"
  by (simp add: slice_def)

lemma unescapeReplacer_E: "unescapeReplacer d dh [a, CHR ''E'', b] = Inr [delimEscape d]"
  by (simp add: unescapeReplacer_def slice_code_letter)

lemma unescapeReplacer_F: "unescapeReplacer d dh [a, CHR ''F'', b] = Inr [delimField d]"
  by (simp add: unescapeReplacer_def slice_code_letter)

lemma unescapeReplacer_R: "unescapeReplacer d dh [a, CHR ''R'', b] = Inr [delimRepetition d]"
  by (simp add: unescapeReplacer_def slice_code_letter)

lemma unescapeReplacer_S: "unescapeReplacer d dh [a, CHR ''S'', b] = Inr [delimComponent d]"
  by (simp add: unescapeReplacer_def slice_code_letter)

lemma unescapeReplacer_T: "unescapeReplacer d dh [a, CHR ''T'', b] = Inr [delimSubComponent d]"
  by (simp add: unescapeReplacer_def slice_code_letter)

lemma escapeReplacer_unfold:
  assumes m: "matchEscape d c"
    and e: "delimEscape d \<noteq> CHR ''E''" "delimEscape d \<noteq> CHR ''F''" "delimEscape d \<noteq> CHR ''R''"
           "delimEscape d \<noteq> CHR ''S''" "delimEscape d \<noteq> CHR ''T''"
  shows "\<exists>k. escapeReplacer d c = [delimEscape d, k, delimEscape d] \<and> k \<noteq> delimEscape d \<and>
       unescapeReplacer d dh [delimEscape d, k, delimEscape d] = Inr [c]"
proof -
  consider (E) "c = delimEscape d"
    | (F) "c \<noteq> delimEscape d" "c = delimField d"
    | (R) "c \<noteq> delimEscape d" "c \<noteq> delimField d" "c = delimRepetition d"
    | (S) "c \<noteq> delimEscape d" "c \<noteq> delimField d" "c \<noteq> delimRepetition d" "c = delimComponent d"
    | (T) "c \<noteq> delimEscape d" "c \<noteq> delimField d" "c \<noteq> delimRepetition d" "c \<noteq> delimComponent d"
          "c = delimSubComponent d"
    using m unfolding matchEscape_def by blast
  then show ?thesis
  proof cases
    case E
    have "escapeReplacer d c = [delimEscape d, CHR ''E'', delimEscape d]"
      using E by (simp add: escapeReplacer_def)
    then show ?thesis using E e(1) unescapeReplacer_E by metis
  next
    case F
    have "escapeReplacer d c = [delimEscape d, CHR ''F'', delimEscape d]"
      using F by (simp add: escapeReplacer_def)
    then show ?thesis using F e(2) unescapeReplacer_F by metis
  next
    case R
    have "escapeReplacer d c = [delimEscape d, CHR ''R'', delimEscape d]"
      using R by (simp add: escapeReplacer_def)
    then show ?thesis using R e(3) unescapeReplacer_R by metis
  next
    case S
    have "escapeReplacer d c = [delimEscape d, CHR ''S'', delimEscape d]"
      using S by (simp add: escapeReplacer_def)
    then show ?thesis using S e(4) unescapeReplacer_S by metis
  next
    case T
    have "escapeReplacer d c = [delimEscape d, CHR ''T'', delimEscape d]"
      using T by (simp add: escapeReplacer_def)
    then show ?thesis using T e(5) unescapeReplacer_T by metis
  qed
qed

lemma replaceUnescape_replaceEscape:
  assumes "delimEscape d \<notin> {CHR ''E'', CHR ''F'', CHR ''R'', CHR ''S'', CHR ''T''}"
  shows "replaceUnescape d dh (replaceEscape d s) = Inr s"
proof (induction s)
  case Nil
  show ?case by simp
next
  case (Cons c s)
  show ?case
  proof (cases "matchEscape d c")
    case True
    from assms have e: "delimEscape d \<noteq> CHR ''E''" "delimEscape d \<noteq> CHR ''F''" "delimEscape d \<noteq> CHR ''R''"
           "delimEscape d \<noteq> CHR ''S''" "delimEscape d \<noteq> CHR ''T''" by auto
    from escapeReplacer_unfold [OF True e, of dh]
    obtain k where k: "escapeReplacer d c = [delimEscape d, k, delimEscape d]" "k \<noteq> delimEscape d"
      "unescapeReplacer d dh [delimEscape d, k, delimEscape d] = Inr [c]" by blast
    then show ?thesis using True Cons.IH by simp
  next
    case False
    then have "c \<noteq> delimEscape d" by (simp add: matchEscape_def)
    then show ?thesis using False Cons.IH by simp
  qed
qed

lemma replaceUnescape_error:
  "replaceUnescape d dh s = Inl e \<Longrightarrow> e = DecodeHexFailure"
proof (induction d dh s rule: replaceUnescape.induct)
  case (1 d dh)
  then show ?case by simp
next
  case (2 d dh c cs)
  show ?case
  proof (cases "c = delimEscape d")
    case False
    with "2.prems" "2.IH"(2) show ?thesis by (simp split: sum.splits)
  next
    case True
    show ?thesis
    proof (cases "dropWhile (\<lambda>x. x \<noteq> delimEscape d) cs")
      case Nil
      with True "2.prems" show ?thesis by simp
    next
      case (Cons x rest)
      show ?thesis
      proof (cases "unescapeReplacer d dh (c # takeWhile (\<lambda>x. x \<noteq> delimEscape d) cs @ [x])")
        case (Inl err)
        then have "err = DecodeHexFailure"
          by (simp add: unescapeReplacer_def Let_def split: if_splits option.splits)
        with True Cons Inl "2.prems" show ?thesis by simp
      next
        case (Inr r)
        with True Cons "2.prems" "2.IH"(1) [OF True Cons Inr] show ?thesis
          by (simp split: sum.splits)
      qed
    qed
  qed
qed

text \<open>
  C1, as amended. For every delimiter set whose escape character is none of the code
  letters E, F, R, S, T (the default set among them), every string and every hex decoder:
  \<open>escape\<close> returns a text, and \<open>unescape\<close> of that text returns the original string.
\<close>

theorem unescape_escape_roundtrip:
  assumes "delimEscape d \<notin> {CHR ''E'', CHR ''F'', CHR ''R'', CHR ''S'', CHR ''T''}"
  shows "\<exists>t. escape d (Text s) = Inr t \<and> unescape d dh (Text t) = Inr s"
proof -
  have r: "replaceUnescape d dh (replaceEscape d s) = Inr s"
    by (rule replaceUnescape_replaceEscape [OF assms])
  have "unescape d dh (Text (replaceEscape d s)) = Inr s"
  proof (cases "delimEscape d \<in> set (replaceEscape d s)")
    case True
    then show ?thesis using r by (simp add: unescape_def)
  next
    case False
    then have "replaceUnescape d dh (replaceEscape d s) = Inr (replaceEscape d s)"
      by (rule replaceUnescape_no_escape)
    with r have "replaceEscape d s = s" by simp
    with False show ?thesis by (simp add: unescape_def)
  qed
  then show ?thesis by (simp add: escape_def)
qed

text \<open>
  The witness: the default delimiters and the field value \<open>A|B\<close>, whose escaped form
  is \<open>A\F\B\<close>.
\<close>

theorem unescape_escape_roundtrip_witness:
  "delimEscape defaultDelimiters \<notin> {CHR ''E'', CHR ''F'', CHR ''R'', CHR ''S'', CHR ''T''} \<and>
   escape defaultDelimiters (Text ''A|B'') = Inr [CHR ''A'', CHR 0x5C, CHR ''F'', CHR 0x5C, CHR ''B''] \<and>
   unescape defaultDelimiters noHexDecoder
     (Text [CHR ''A'', CHR 0x5C, CHR ''F'', CHR 0x5C, CHR ''B'']) = Inr ''A|B''"
proof -
  have h: "delimEscape defaultDelimiters \<notin> {CHR ''E'', CHR ''F'', CHR ''R'', CHR ''S'', CHR ''T''}"
    by (simp add: defaultDelimiters_def)
  have e: "escape defaultDelimiters (Text ''A|B'') =
             Inr [CHR ''A'', CHR 0x5C, CHR ''F'', CHR 0x5C, CHR ''B'']"
    by (simp add: escape_def matchEscape_def escapeReplacer_def defaultDelimiters_def)
  from unescape_escape_roundtrip [OF h, of "''A|B''" noHexDecoder] e
  have "unescape defaultDelimiters noHexDecoder
          (Text [CHR ''A'', CHR 0x5C, CHR ''F'', CHR 0x5C, CHR ''B'']) = Inr ''A|B''"
    by auto
  with h e show ?thesis by blast
qed

text \<open>
  The claim as stated fails for a delimiter set whose escape character is the letter E:
  the string \<open>E\<close> is escaped to \<open>EEE\<close>, which is unescaped to \<open>EE\<close>.
\<close>

theorem roundtrip_fails_for_letter_escape:
  "escape (defaultDelimiters\<lparr>delimEscape := CHR ''E''\<rparr>) (Text ''E'') = Inr ''EEE'' \<and>
   unescape (defaultDelimiters\<lparr>delimEscape := CHR ''E''\<rparr>) noHexDecoder (Text ''EEE'') = Inr ''EE''"
  by code_simp

text \<open>
  C2, as amended. On \<^verbatim>\<open>null\<close> both functions raise \<open>HL7FatalError\<close> with code 500; on
  \<^verbatim>\<open>undefined\<close> the member access raises a \<open>TypeError\<close> instead; on a string neither
  raises an \<open>HL7FatalError\<close>, and \<open>escape\<close> raises nothing at all.
\<close>

theorem escape_unescape_missing_input:
  "escape d Null = Inl (HL7FatalError 500 ''text must be passed in escape function.'') \<and>
   unescape d dh Null = Inl (HL7FatalError 500 ''text must be passed in unescape function.'') \<and>
   escape d Undefined = Inl TypeError \<and>
   unescape d dh Undefined = Inl TypeError \<and>
   escape d (Text s) = Inr (replaceEscape d s) \<and>
   \<not> isHL7FatalError (escape d (Text s)) \<and>
   \<not> isHL7FatalError (unescape d dh (Text s))"
proof -
  have "\<not> isHL7FatalError (unescape d dh (Text s))"
  proof (cases "unescape d dh (Text s)")
    case (Inl e)
    then have "replaceUnescape d dh s = Inl e"
      by (simp add: unescape_def split: if_splits)
    then have "e = DecodeHexFailure" by (rule replaceUnescape_error)
    with Inl show ?thesis by simp
  next
    case (Inr r)
    then show ?thesis by simp
  qed
  then show ?thesis by (simp add: escape_def unescape_def)
qed

text \<open>
  The claim as stated fails on \<^verbatim>\<open>undefined\<close>: what is raised is not an \<open>HL7FatalError\<close>.
\<close>

theorem undefined_input_raises_TypeError:
  "escape defaultDelimiters Undefined = Inl TypeError \<and>
   \<not> isHL7FatalError (escape defaultDelimiters Undefined) \<and>
   unescape defaultDelimiters noHexDecoder Undefined = Inl TypeError \<and>
   \<not> isHL7FatalError (unescape defaultDelimiters noHexDecoder Undefined)"
  by (simp add: escape_def unescape_def)

section \<open>Properties of the segment splitter\<close>

lemma regexExecLoop_Nil: "regexExecLoop name p [] = []"
  by (subst regexExecLoop.simps) (simp add: regexMatchAt_def)

lemma regexExecLoop_None:
  "regexMatchAt name (c # cs) = None \<Longrightarrow>
   regexExecLoop name p (c # cs) = regexExecLoop name (p + 1) cs"
  by (subst regexExecLoop.simps) simp

lemma regexExecLoop_Some:
  "regexMatchAt name s = Some m \<Longrightarrow>
   regexExecLoop name p s =
     adjustIndex m p # regexExecLoop name (p + length m) (drop (length m) s)"
  by (subst regexExecLoop.simps) simp

lemma regexMatchAt_cases:
  assumes "regexMatchAt name s = Some m"
  obtains (lf) cs where "s = LF # cs" "prefix (name @ ''|'') cs" "m = LF # name @ ''|''"
    | (cr) cs where "s = CR # cs" "prefix (name @ ''|'') cs" "m = CR # name @ ''|''"
    | (plain) "prefix (name @ ''|'') s" "m = name @ ''|''"
proof (cases s)
  case Nil
  with assms show ?thesis by (simp add: regexMatchAt_def)
next
  case (Cons c cs)
  show ?thesis
  proof (cases "c = LF \<and> prefix (name @ ''|'') cs")
    case True
    with assms Cons have "m = LF # name @ ''|''"
      by (simp add: regexMatchAt_def)
    with True Cons lf show ?thesis by blast
  next
    case nlf: False
    show ?thesis
    proof (cases "c = CR \<and> prefix (name @ ''|'') cs")
      case True
      with assms Cons nlf have "m = CR # name @ ''|''"
        by (simp add: regexMatchAt_def)
      with True Cons cr show ?thesis by blast
    next
      case ncr: False
      show ?thesis
      proof (cases "prefix (name @ ''|'') (c # cs)")
        case True
        with assms Cons nlf ncr have "m = name @ ''|''"
          by (simp add: regexMatchAt_def)
        with True Cons plain show ?thesis by blast
      next
        case False
        with assms Cons nlf ncr have "None = Some m"
          by (simp add: regexMatchAt_def)
        then show ?thesis by simp
      qed
    qed
  qed
qed

lemma CR_neq_LF: "CR \<noteq> LF"
  by (simp add: CR_def LF_def)

lemma bar_neq: "CHR ''|'' \<noteq> CR" "CHR ''|'' \<noteq> LF"
  by (simp_all add: CR_def LF_def)

lemma adjustIndex_plain:
  assumes "CR \<notin> set m" "LF \<notin> set m"
  shows "adjustIndex m p = p"
proof -
  have "\<not> sublist [CR, LF] m"
    using assms set_mono_sublist [of "[CR, LF]" m] by auto
  then show ?thesis using assms by (simp add: adjustIndex_def)
qed

lemma adjustIndex_LF:
  assumes "CR \<notin> set m"
  shows "adjustIndex (LF # m) p = p + 1"
proof -
  have "\<not> sublist [CR, LF] (LF # m)"
    using assms set_mono_sublist [of "[CR, LF]" "LF # m"] CR_neq_LF by auto
  then show ?thesis by (simp add: adjustIndex_def)
qed

lemma adjustIndex_CR:
  assumes "LF \<notin> set m"
  shows "adjustIndex (CR # m) p = p + 1"
proof -
  have "\<not> sublist [CR, LF] (CR # m)"
    using assms set_mono_sublist [of "[CR, LF]" "CR # m"] CR_neq_LF by auto
  then show ?thesis using assms CR_neq_LF by (simp add: adjustIndex_def)
qed

lemma regexMatchAt_adjust:
  assumes nb: "noLineBreak name" and m: "regexMatchAt name s = Some m"
  shows "\<exists>k. adjustIndex m p = p + k \<and> length m = k + length (name @ ''|'') \<and>
             prefix (name @ ''|'') (drop k s)"
proof -
  from nb have pat: "CR \<notin> set (name @ ''|'')" "LF \<notin> set (name @ ''|'')"
    using bar_neq by (auto simp: noLineBreak_def)
  from m show ?thesis
  proof (cases rule: regexMatchAt_cases)
    case (lf cs)
    have "adjustIndex m p = p + 1" unfolding lf(3) using pat(1) adjustIndex_LF by simp
    then show ?thesis using lf by (intro exI [of _ 1]) simp
  next
    case (cr cs)
    have "adjustIndex m p = p + 1" unfolding cr(3) using pat(2) adjustIndex_CR by simp
    then show ?thesis using cr by (intro exI [of _ 1]) simp
  next
    case plain
    have "adjustIndex m p = p" unfolding plain(2) using pat by (rule adjustIndex_plain)
    then show ?thesis using plain by (intro exI [of _ 0]) simp
  qed
qed

lemma regexExecLoop_elem:
  "noLineBreak name \<Longrightarrow> i \<in> set (regexExecLoop name p s) \<Longrightarrow>
         p \<le> i \<and> prefix (name @ ''|'') (drop (i - p) s)"
proof (induction name p s rule: regexExecLoop.induct)
  case (1 name p s)
  note nb = \<open>noLineBreak name\<close>
  note mem = \<open>i \<in> set (regexExecLoop name p s)\<close>
  show ?case
  proof (cases "regexMatchAt name s")
    case None
    show ?thesis
    proof (cases s)
      case Nil
      with mem show ?thesis by (simp add: regexExecLoop_Nil)
    next
      case (Cons c cs)
      with None mem have "i \<in> set (regexExecLoop name (p + 1) cs)"
        by (simp add: regexExecLoop_None)
      from "1.IH"(1) [OF None Cons nb this]
      have "p + 1 \<le> i" "prefix (name @ ''|'') (drop (i - (p + 1)) cs)" by simp_all
      moreover from \<open>p + 1 \<le> i\<close> have "i - p = Suc (i - (p + 1))" by simp
      ultimately show ?thesis using Cons by simp
    qed
  next
    case (Some m)
    from regexMatchAt_adjust [OF nb Some, of p]
    obtain k where k: "adjustIndex m p = p + k" "length m = k + length (name @ ''|'')"
      "prefix (name @ ''|'') (drop k s)" by blast
    from mem have "i = p + k \<or> i \<in> set (regexExecLoop name (p + length m) (drop (length m) s))"
      by (simp add: regexExecLoop_Some [OF Some] k(1))
    then show ?thesis
    proof
      assume "i = p + k"
      then show ?thesis using k(3) by simp
    next
      assume "i \<in> set (regexExecLoop name (p + length m) (drop (length m) s))"
      from "1.IH"(2) [OF Some nb this]
      have a: "p + length m \<le> i" "prefix (name @ ''|'') (drop (i - (p + length m)) (drop (length m) s))"
        by blast+
      from a(1) have "i - (p + length m) + length m = i - p" by simp
      with a(2) have "prefix (name @ ''|'') (drop (i - p) s)" by (simp only: drop_drop)
      with a(1) show ?thesis by simp
    qed
  qed
qed

lemma regexExecLoop_lower:
  "noLineBreak name \<Longrightarrow> i \<in> set (regexExecLoop name p s) \<Longrightarrow> p \<le> i"
  using regexExecLoop_elem by blast

lemma regexExecLoop_distinct:
  "noLineBreak name \<Longrightarrow> distinct (regexExecLoop name p s)"
proof (induction name p s rule: regexExecLoop.induct)
  case (1 name p s)
  note nb = \<open>noLineBreak name\<close>
  show ?case
  proof (cases "regexMatchAt name s")
    case None
    show ?thesis
    proof (cases s)
      case Nil
      then show ?thesis by (simp add: regexExecLoop_Nil)
    next
      case (Cons c cs)
      with None "1.IH"(1) nb show ?thesis by (simp add: regexExecLoop_None)
    qed
  next
    case (Some m)
    from regexMatchAt_adjust [OF nb Some, of p]
    obtain k where k: "adjustIndex m p = p + k" "length m = k + length (name @ ''|'')"
      by blast
    have "p + k \<notin> set (regexExecLoop name (p + length m) (drop (length m) s))"
    proof
      assume "p + k \<in> set (regexExecLoop name (p + length m) (drop (length m) s))"
      from regexExecLoop_lower [OF nb this] show False using k(2) by simp
    qed
    with "1.IH"(2) [OF Some nb] show ?thesis by (simp add: regexExecLoop_Some [OF Some] k(1))
  qed
qed

lemma prefix_in_range:
  "prefix (name @ ''|'') (drop i s) \<Longrightarrow> i < length s"
  by (cases "i < length s") auto

lemma regexExecLoop_disjoint:
  assumes "noLineBreak n1" "noLineBreak n2" "length n1 = length n2" "n1 \<noteq> n2"
  shows "set (regexExecLoop n1 0 s) \<inter> set (regexExecLoop n2 0 s) = {}"
proof (rule ccontr)
  assume "set (regexExecLoop n1 0 s) \<inter> set (regexExecLoop n2 0 s) \<noteq> {}"
  then obtain i where "i \<in> set (regexExecLoop n1 0 s)" "i \<in> set (regexExecLoop n2 0 s)"
    by blast
  then have "prefix (n1 @ ''|'') (drop i s)" "prefix (n2 @ ''|'') (drop i s)"
    using regexExecLoop_elem assms(1,2) by fastforce+
  then obtain r1 r2 where "drop i s = (n1 @ ''|'') @ r1" "drop i s = (n2 @ ''|'') @ r2"
    by (auto simp: prefix_def)
  then have "n1 @ (''|'' @ r1) = n2 @ (''|'' @ r2)" by simp
  with assms(3) have "n1 = n2" by (metis append_eq_append_conv)
  with assms(4) show False by simp
qed

lemma regexExecLoop_no_match:
  "\<not> sublist (name @ ''|'') s \<Longrightarrow> regexExecLoop name p s = []"
proof (induction name p s rule: regexExecLoop.induct)
  case (1 name p s)
  show ?case
  proof (cases "regexMatchAt name s")
    case None
    show ?thesis
    proof (cases s)
      case Nil
      then show ?thesis by (simp add: regexExecLoop_Nil)
    next
      case (Cons c cs)
      from "1.prems" Cons have "\<not> sublist (name @ ''|'') cs"
        by (simp add: sublist_Cons_right)
      from "1.IH"(1) [OF None Cons this] None Cons show ?thesis
        by (simp add: regexExecLoop_None)
    qed
  next
    case (Some m)
    then have "sublist (name @ ''|'') s"
    proof (cases rule: regexMatchAt_cases)
      case (lf cs)
      then show ?thesis by (simp add: sublist_Cons_right)
    next
      case (cr cs)
      then show ?thesis by (simp add: sublist_Cons_right)
    next
      case plain
      then show ?thesis by simp
    qed
    with "1.prems" show ?thesis by simp
  qed
qed


lemma getSegIndexes_boundaryNames:
  "getSegIndexes boundaryNames data [] =
     regexExecLoop ''FHS'' 0 data @ regexExecLoop ''BHS'' 0 data @ regexExecLoop ''MSH'' 0 data @
     regexExecLoop ''BTS'' 0 data @ regexExecLoop ''FTS'' 0 data"
  by (simp add: boundaryNames_def)

lemma noLineBreak_boundaryNames:
  "noLineBreak ''FHS''" "noLineBreak ''BHS''" "noLineBreak ''MSH''"
  "noLineBreak ''BTS''" "noLineBreak ''FTS''"
  by (simp_all add: noLineBreak_def CR_def LF_def)

lemma boundary_disjoint:
  assumes "noLineBreak n1" "noLineBreak n2" "length n1 = length n2" "n1 \<noteq> n2"
  shows "i \<in> set (regexExecLoop n1 0 s) \<Longrightarrow> i \<notin> set (regexExecLoop n2 0 s)"
  using regexExecLoop_disjoint [OF assms, of s] by blast

lemma getSegIndexes_distinct: "distinct (getSegIndexes boundaryNames data [])"
proof -
  note nb = noLineBreak_boundaryNames
  have d: "distinct (regexExecLoop ''FHS'' 0 data)" "distinct (regexExecLoop ''BHS'' 0 data)"
    "distinct (regexExecLoop ''MSH'' 0 data)" "distinct (regexExecLoop ''BTS'' 0 data)"
    "distinct (regexExecLoop ''FTS'' 0 data)"
    using nb by (simp_all add: regexExecLoop_distinct)
  have x: "\<And>i. i \<in> set (regexExecLoop ''FHS'' 0 data) \<Longrightarrow> i \<notin> set (regexExecLoop ''BHS'' 0 data)"
    "\<And>i. i \<in> set (regexExecLoop ''FHS'' 0 data) \<Longrightarrow> i \<notin> set (regexExecLoop ''MSH'' 0 data)"
    "\<And>i. i \<in> set (regexExecLoop ''FHS'' 0 data) \<Longrightarrow> i \<notin> set (regexExecLoop ''BTS'' 0 data)"
    "\<And>i. i \<in> set (regexExecLoop ''FHS'' 0 data) \<Longrightarrow> i \<notin> set (regexExecLoop ''FTS'' 0 data)"
    "\<And>i. i \<in> set (regexExecLoop ''BHS'' 0 data) \<Longrightarrow> i \<notin> set (regexExecLoop ''MSH'' 0 data)"
    "\<And>i. i \<in> set (regexExecLoop ''BHS'' 0 data) \<Longrightarrow> i \<notin> set (regexExecLoop ''BTS'' 0 data)"
    "\<And>i. i \<in> set (regexExecLoop ''BHS'' 0 data) \<Longrightarrow> i \<notin> set (regexExecLoop ''FTS'' 0 data)"
    "\<And>i. i \<in> set (regexExecLoop ''MSH'' 0 data) \<Longrightarrow> i \<notin> set (regexExecLoop ''BTS'' 0 data)"
    "\<And>i. i \<in> set (regexExecLoop ''MSH'' 0 data) \<Longrightarrow> i \<notin> set (regexExecLoop ''FTS'' 0 data)"
    "\<And>i. i \<in> set (regexExecLoop ''BTS'' 0 data) \<Longrightarrow> i \<notin> set (regexExecLoop ''FTS'' 0 data)"
    by (rule boundary_disjoint; simp add: nb)+
  show ?thesis
    unfolding getSegIndexes_boundaryNames
    using d x by (simp add: disjoint_iff)
qed

lemma getSegIndexes_in_range:
  assumes "i \<in> set (getSegIndexes boundaryNames data [])"
  shows "i < length data"
proof -
  from assms obtain name where n: "noLineBreak name" "i \<in> set (regexExecLoop name 0 data)"
    unfolding getSegIndexes_boundaryNames using noLineBreak_boundaryNames by auto
  from regexExecLoop_elem [OF n] have "prefix (name @ ''|'') (drop i data)" by simp
  then show ?thesis by (rule prefix_in_range)
qed

lemma getSegIndexes_empty:
  assumes "\<forall>name \<in> set boundaryNames. \<not> sublist (name @ ''|'') data"
  shows "getSegIndexes boundaryNames data [] = []"
proof -
  from assms have "\<not> sublist (''FHS'' @ ''|'') data" "\<not> sublist (''BHS'' @ ''|'') data"
    "\<not> sublist (''MSH'' @ ''|'') data" "\<not> sublist (''BTS'' @ ''|'') data"
    "\<not> sublist (''FTS'' @ ''|'') data"
    by (simp_all add: boundaryNames_def)
  note ns = this
  show ?thesis
    unfolding getSegIndexes_boundaryNames
    by (simp only: regexExecLoop_no_match [OF ns(1)] regexExecLoop_no_match [OF ns(2)]
          regexExecLoop_no_match [OF ns(3)] regexExecLoop_no_match [OF ns(4)]
          regexExecLoop_no_match [OF ns(5)] append_Nil)
qed

lemma regexExecLoop_at_start:
  assumes "noLineBreak name" "prefix (name @ ''|'') s"
  shows "p \<in> set (regexExecLoop name p s)"
proof -
  from assms(2) obtain c cs where s: "s = c # cs" and c: "c \<in> set (name @ ''|'')"
    by (cases s; cases name) (auto simp: prefix_def)
  from c assms(1) have c': "c \<noteq> LF" "c \<noteq> CR"
    using bar_neq by (auto simp: noLineBreak_def)
  from assms(2) s c' have m: "regexMatchAt name s = Some (name @ ''|'')"
    by (simp add: regexMatchAt_def)
  have "adjustIndex (name @ ''|'') p = p"
    using assms(1) bar_neq by (intro adjustIndex_plain) (auto simp: noLineBreak_def)
  then show ?thesis by (simp add: regexExecLoop_Some [OF m])
qed

lemma getSegIndexes_at_start:
  assumes "name \<in> set boundaryNames" "prefix (name @ ''|'') data"
  shows "0 \<in> set (getSegIndexes boundaryNames data [])"
proof -
  from assms(1) have nb: "noLineBreak name"
    using noLineBreak_boundaryNames by (auto simp: boundaryNames_def)
  from regexExecLoop_at_start [OF nb assms(2), of 0] assms(1) show ?thesis
    unfolding getSegIndexes_boundaryNames by (auto simp: boundaryNames_def)
qed

lemma segmentRanges_fst: "map fst (segmentRanges len idx) = idx"
  by (induction len idx rule: segmentRanges.induct) simp_all

lemma segmentRanges_snd: "idx \<noteq> [] \<Longrightarrow> map snd (segmentRanges len idx) = tl idx @ [len]"
  by (induction len idx rule: segmentRanges.induct) simp_all

lemma segmentRanges_nonempty:
  "sorted_wrt (<) idx \<Longrightarrow> \<forall>i \<in> set idx. i < len \<Longrightarrow>
   \<forall>(start, end) \<in> set (segmentRanges len idx). start < end \<and> end \<le> len"
  by (induction len idx rule: segmentRanges.induct) auto

lemma concat_slices:
  "sorted idx \<Longrightarrow> \<forall>i \<in> set idx. i \<le> length data \<Longrightarrow>
   concat (map (\<lambda>(start, end). slice data start end) (segmentRanges (length data) idx)) =
     (case idx of [] \<Rightarrow> [] | i # _ \<Rightarrow> drop i data)"
proof (induction "length data" idx rule: segmentRanges.induct)
  case 1
  show ?case by simp
next
  case (2 start)
  then show ?case by (simp add: slice_def)
next
  case (3 start "end" rest)
  from "3.prems" have le: "start \<le> end" by simp
  have "slice data start end @ drop end data = drop start data"
  proof -
    have "drop end data = drop (end - start) (drop start data)" using le by simp
    then show ?thesis unfolding slice_def by (simp only: append_take_drop_id)
  qed
  moreover from "3.prems" "3.hyps" have
    "concat (map (\<lambda>(start, end). slice data start end) (segmentRanges (length data) (end # rest)))
      = drop end data" by simp
  ultimately show ?case by simp
qed


lemma sorted_idx:
  "sorted_wrt (<) (sort (getSegIndexes boundaryNames data []))"
  by (simp add: strict_sorted_iff getSegIndexes_distinct)

lemma sorted_hd_zero:
  assumes "sorted idx" "(0::nat) \<in> set idx"
  shows "(case idx of [] \<Rightarrow> [] | i # _ \<Rightarrow> drop i data) = data"
  using assms by (cases idx) auto

lemma split_twoMessages: "split twoMessages [] = [firstMessage, secondMessage]"
  by code_simp

lemma twoMessages_concat: "firstMessage @ secondMessage = twoMessages"
  by (simp add: firstMessage_def secondMessage_def twoMessages_def)

lemma getSegIndexes_elem_prefix:
  assumes "i \<in> set (getSegIndexes boundaryNames data [])"
  shows "\<exists>name \<in> set boundaryNames. prefix (name @ ''|'') (drop i data)"
proof -
  from assms obtain name where n: "name \<in> set boundaryNames" "i \<in> set (regexExecLoop name 0 data)"
    unfolding getSegIndexes_boundaryNames by (auto simp: boundaryNames_def)
  then have nb: "noLineBreak name"
    using noLineBreak_boundaryNames by (auto simp: boundaryNames_def)
  from regexExecLoop_elem [OF nb n(2)] have "prefix (name @ ''|'') (drop i data)" by simp
  with n(1) show ?thesis by blast
qed

lemma concat_split_whole_iff:
  "concat (split data []) = data \<longleftrightarrow>
     data = [] \<or> (\<exists>name \<in> set boundaryNames. prefix (name @ ''|'') data)"
proof -
  define idx where "idx = sort (getSegIndexes boundaryNames data [])"
  have s: "sorted idx" unfolding idx_def by simp
  have r: "\<forall>i \<in> set idx. i < length data"
    unfolding idx_def using getSegIndexes_in_range by simp
  then have r': "\<forall>i \<in> set idx. i \<le> length data" by auto
  have d: "concat (split data []) = (case idx of [] \<Rightarrow> [] | i # _ \<Rightarrow> drop i data)"
    unfolding split_def Let_def idx_def [symmetric] append_Nil
    by (rule concat_slices [OF s r'])
  show ?thesis
  proof
    assume w: "concat (split data []) = data"
    show "data = [] \<or> (\<exists>name \<in> set boundaryNames. prefix (name @ ''|'') data)"
    proof (cases idx)
      case Nil
      with d w show ?thesis by simp
    next
      case (Cons i rest)
      with d w have "drop i data = data" by simp
      then have "length data - i = length data" by (metis length_drop)
      moreover from Cons r have "i < length data" by simp
      ultimately have "i = 0" by simp
      with Cons have "0 \<in> set (getSegIndexes boundaryNames data [])"
        unfolding idx_def by (metis list.set_intros(1) set_sort)
      from getSegIndexes_elem_prefix [OF this] show ?thesis by simp
    qed
  next
    assume "data = [] \<or> (\<exists>name \<in> set boundaryNames. prefix (name @ ''|'') data)"
    then show "concat (split data []) = data"
    proof
      assume e: "data = []"
      with r have "idx = []" by (cases idx) auto
      with d e show ?thesis by simp
    next
      assume "\<exists>name \<in> set boundaryNames. prefix (name @ ''|'') data"
      then have "0 \<in> set idx"
        unfolding idx_def using getSegIndexes_at_start by auto
      with s show ?thesis unfolding d by (rule sorted_hd_zero)
    qed
  qed
qed

text \<open>
  C3, as amended. With the sorted boundary offsets \<open>idx\<close> and the ranges \<open>rs\<close> cut
  from them: the segments are the slices of the ranges; the starts increase strictly;
  every range is non-empty and inside the input; each range ends where the next starts
  and the last ends at the end of the input; so the segments, concatenated, are the input
  from the first of the offsets on (nothing when there is no boundary). They are the
  whole input exactly when the input is empty or begins with a boundary name followed by
  the bar. For the two-message text the result is exactly its two messages, the first
  with its terminator.
\<close>

theorem split_segments_contiguous_from_first_boundary:
  "(let idx = sort (getSegIndexes boundaryNames data []);
        rs = segmentRanges (length data) idx
    in split data [] = map (\<lambda>(start, end). slice data start end) rs \<and>
       sorted_wrt (<) (map fst rs) \<and>
       (\<forall>(start, end) \<in> set rs. start < end \<and> end \<le> length data) \<and>
       (rs \<noteq> [] \<longrightarrow> map snd rs = tl (map fst rs) @ [length data]) \<and>
       concat (split data []) = (case idx of [] \<Rightarrow> [] | i # _ \<Rightarrow> drop i data) \<and>
       (concat (split data []) = data \<longleftrightarrow>
          data = [] \<or> (\<exists>name \<in> set boundaryNames. prefix (name @ ''|'') data))) \<and>
   split twoMessages [] = [firstMessage, secondMessage] \<and>
   firstMessage @ secondMessage = twoMessages"
proof -
  define idx where "idx = sort (getSegIndexes boundaryNames data [])"
  define rs where "rs = segmentRanges (length data) idx"
  have s: "sorted_wrt (<) idx" unfolding idx_def by (rule sorted_idx)
  then have s': "sorted idx" by (simp add: strict_sorted_iff)
  have r: "\<forall>i \<in> set idx. i < length data"
    unfolding idx_def using getSegIndexes_in_range by simp
  then have r': "\<forall>i \<in> set idx. i \<le> length data" by auto
  have sp: "split data [] = map (\<lambda>(start, end). slice data start end) rs"
    by (simp add: split_def rs_def idx_def)
  have a: "sorted_wrt (<) (map fst rs)"
    unfolding rs_def segmentRanges_fst by (rule s)
  have b: "\<forall>(start, end) \<in> set rs. start < end \<and> end \<le> length data"
    unfolding rs_def by (rule segmentRanges_nonempty [OF s r])
  have c: "rs \<noteq> [] \<longrightarrow> map snd rs = tl (map fst rs) @ [length data]"
  proof
    assume "rs \<noteq> []"
    then have "idx \<noteq> []" unfolding rs_def by auto
    then show "map snd rs = tl (map fst rs) @ [length data]"
      unfolding rs_def segmentRanges_fst by (rule segmentRanges_snd)
  qed
  have d: "concat (split data []) = (case idx of [] \<Rightarrow> [] | i # _ \<Rightarrow> drop i data)"
    unfolding sp rs_def by (rule concat_slices [OF s' r'])
  note e = concat_split_whole_iff [of data]
  show ?thesis
    unfolding Let_def idx_def [symmetric] rs_def [symmetric]
    by (intro conjI) (fact sp a b c d e split_twoMessages twoMessages_concat)+
qed

text \<open>
  The witness: the two-message text begins with \<open>MSH|\<close>, so its segments concatenate
  to the whole text, and its two ranges are \<open>[0, 11)\<close> and \<open>[11, 21)\<close>.
\<close>

theorem split_segments_contiguous_from_first_boundary_witness:
  "(\<exists>name \<in> set boundaryNames. prefix (name @ ''|'') twoMessages) \<and>
   concat (split twoMessages []) = twoMessages \<and>
   segmentRanges (length twoMessages) (sort (getSegIndexes boundaryNames twoMessages []))
     = [(0, 11), (11, 21)]"
proof -
  have h: "\<exists>name \<in> set boundaryNames. prefix (name @ ''|'') twoMessages"
    by (simp add: boundaryNames_def twoMessages_def)
  note whole = split_segments_contiguous_from_first_boundary
    [of twoMessages, unfolded Let_def, THEN conjunct1, THEN conjunct2, THEN conjunct2,
     THEN conjunct2, THEN conjunct2, THEN conjunct2]
  from h have "concat (split twoMessages []) = twoMessages"
    by (intro whole [THEN iffD2] disjI2)
  moreover have
    "segmentRanges (length twoMessages) (sort (getSegIndexes boundaryNames twoMessages []))
       = [(0, 11), (11, 21)]"
    by code_simp
  ultimately show ?thesis using h by blast
qed

text \<open>
  The claim as stated fails on a text that does not begin with a boundary: what stands
  before the first boundary is in no segment.
\<close>

theorem split_drops_text_before_first_boundary:
  "split (''EVN|A01'' @ [CR] @ ''MSH|B'') [] = [''MSH|B''] \<and>
   concat (split (''EVN|A01'' @ [CR] @ ''MSH|B'') []) \<noteq> ''EVN|A01'' @ [CR] @ ''MSH|B''"
  by code_simp

text \<open>
  C9, as amended. When none of the five boundary names followed by the bar occurs
  anywhere in the input, \<open>split\<close> returns its accumulator as it was (the empty list by
  default): the input is in no segment. The bar is the literal of the pattern; it is the
  field separator of a delimiter set only when that set's field separator is the bar.
\<close>

theorem split_no_boundary_returns_accumulator:
  "((\<forall>name \<in> set boundaryNames. \<not> sublist (name @ ''|'') data) \<longrightarrow>
      split data segments = segments) \<and>
   (delimField d = CHR ''|'' \<and>
    (\<forall>name \<in> set boundaryNames. \<not> sublist (name @ [delimField d]) data) \<longrightarrow>
      split data segments = segments)"
proof -
  have "split data segments = segments"
    if "\<forall>name \<in> set boundaryNames. \<not> sublist (name @ ''|'') data"
    using getSegIndexes_empty [OF that] by (simp add: split_def)
  then show ?thesis by auto
qed

theorem split_no_boundary_returns_accumulator_witness:
  "\<not> sublist ''FHS|'' ''PID|1||12345^^^MRN'' \<and> \<not> sublist ''BHS|'' ''PID|1||12345^^^MRN'' \<and>
   \<not> sublist ''MSH|'' ''PID|1||12345^^^MRN'' \<and> \<not> sublist ''BTS|'' ''PID|1||12345^^^MRN'' \<and>
   \<not> sublist ''FTS|'' ''PID|1||12345^^^MRN'' \<and>
   delimField defaultDelimiters = CHR ''|'' \<and>
   split ''PID|1||12345^^^MRN'' [] = [] \<and>
   split ''PID|1||12345^^^MRN'' [''kept''] = [''kept'']"
proof -
  have n: "\<not> sublist ''FHS|'' ''PID|1||12345^^^MRN''" "\<not> sublist ''BHS|'' ''PID|1||12345^^^MRN''"
    "\<not> sublist ''MSH|'' ''PID|1||12345^^^MRN''" "\<not> sublist ''BTS|'' ''PID|1||12345^^^MRN''"
    "\<not> sublist ''FTS|'' ''PID|1||12345^^^MRN''"
    by code_simp+
  have f: "delimField defaultDelimiters = CHR ''|''"
    by (simp add: defaultDelimiters_def)
  from n have h: "\<forall>name \<in> set boundaryNames. \<not> sublist (name @ ''|'') ''PID|1||12345^^^MRN''"
    by (simp add: boundaryNames_def)
  with f have h': "\<forall>name \<in> set boundaryNames.
      \<not> sublist (name @ [delimField defaultDelimiters]) ''PID|1||12345^^^MRN''"
    by simp
  note bar = split_no_boundary_returns_accumulator [THEN conjunct1, THEN mp]
  note sep = split_no_boundary_returns_accumulator
    [where d = defaultDelimiters, THEN conjunct2, THEN mp]
  have s1: "split ''PID|1||12345^^^MRN'' [] = []"
    by (rule bar) (rule h)
  have s2: "split ''PID|1||12345^^^MRN'' [''kept''] = [''kept'']"
    by (rule sep) (rule conjI [OF f h'])
  show ?thesis by (intro conjI) (fact n f s1 s2)+
qed

text \<open>
  The claim as stated fails for an instance built with the field separator \<open>#\<close>: the
  text \<open>PID#1#MSH|x\<close> holds no boundary name followed by that separator, and \<open>split\<close>
  still cuts a segment at \<open>MSH|\<close>.
\<close>

theorem split_ignores_configured_field_separator:
  "\<not> sublist (''FHS'' @ [delimField (defaultDelimiters\<lparr>delimField := CHR ''#''\<rparr>)]) ''PID#1#MSH|x'' \<and>
   \<not> sublist (''BHS'' @ [delimField (defaultDelimiters\<lparr>delimField := CHR ''#''\<rparr>)]) ''PID#1#MSH|x'' \<and>
   \<not> sublist (''MSH'' @ [delimField (defaultDelimiters\<lparr>delimField := CHR ''#''\<rparr>)]) ''PID#1#MSH|x'' \<and>
   \<not> sublist (''BTS'' @ [delimField (defaultDelimiters\<lparr>delimField := CHR ''#''\<rparr>)]) ''PID#1#MSH|x'' \<and>
   \<not> sublist (''FTS'' @ [delimField (defaultDelimiters\<lparr>delimField := CHR ''#''\<rparr>)]) ''PID#1#MSH|x'' \<and>
   split ''PID#1#MSH|x'' [''kept''] = [''kept'', ''MSH|x''] \<and>
   split ''PID#1#MSH|x'' [] \<noteq> []"
  by code_simp

section \<open>Properties of the MSH header check\<close>

lemma checkMSH_Inr_iff:
  "checkMSH msh = Inr r \<longleftrightarrow>
     r = msh \<and>
     (\<exists>m1 m2 m3 m10.
        msh_9_1 (msh_9 msh) = Some m1 \<and> msh_9_2 (msh_9 msh) = Some m2 \<and>
        msh_9_3 (msh_9 msh) = Some m3 \<and> msh_10 msh = Some m10 \<and>
        length m1 = 3 \<and> length m2 = 3 \<and> length m3 = 7 \<and> length m10 \<le> 199)"
  by (auto simp: checkMSH_def split: option.splits)

lemma checkMSH_total: "(\<exists>e. checkMSH msh = Inl (PlainError e)) \<or> checkMSH msh = Inr msh"
  by (simp add: checkMSH_def split: option.splits)

text \<open>
  C8. For every structured MSH header, \<open>checkMSH\<close> either returns its argument itself,
  unmodified, or throws an \<^verbatim>\<open>Error\<close> carrying a message; it returns exactly when all
  four subfields are defined, \<^verbatim>\<open>msh_9_1\<close> and \<^verbatim>\<open>msh_9_2\<close> have 3 characters, \<^verbatim>\<open>msh_9_3\<close> has 7
  and \<^verbatim>\<open>msh_10\<close> has at most 199, and throws in every other case.
\<close>

theorem checkMSH_returns_unchanged_or_throws:
  "((\<exists>e. checkMSH msh = Inl (PlainError e)) \<or> checkMSH msh = Inr msh) \<and>
   (checkMSH msh = Inr msh \<longleftrightarrow>
      (\<exists>m1 m2 m3 m10.
         msh_9_1 (msh_9 msh) = Some m1 \<and> msh_9_2 (msh_9 msh) = Some m2 \<and>
         msh_9_3 (msh_9 msh) = Some m3 \<and> msh_10 msh = Some m10 \<and>
         length m1 = 3 \<and> length m2 = 3 \<and> length m3 = 7 \<and> length m10 \<le> 199)) \<and>
   (\<forall>r. checkMSH msh = Inr r \<longrightarrow> r = msh)"
  using checkMSH_total [of msh] checkMSH_Inr_iff [of msh] by blast

theorem checkMSH_returns_unchanged_or_throws_witness:
  "checkMSH \<lparr>msh_9 = \<lparr>msh_9_1 = Some ''ADT'', msh_9_2 = Some ''A01'', msh_9_3 = Some ''ADT_A01''\<rparr>,
             msh_10 = Some ''12345''\<rparr>
     = Inr \<lparr>msh_9 = \<lparr>msh_9_1 = Some ''ADT'', msh_9_2 = Some ''A01'', msh_9_3 = Some ''ADT_A01''\<rparr>,
             msh_10 = Some ''12345''\<rparr>
   \<and> checkMSH \<lparr>msh_9 = \<lparr>msh_9_1 = Some ''ADT'', msh_9_2 = Some ''A01'', msh_9_3 = None\<rparr>,
               msh_10 = Some ''12345''\<rparr>
     = Inl (PlainError ''MSH.1 must be one character in length.'')"
proof -
  let ?ok = "\<lparr>msh_9 = \<lparr>msh_9_1 = Some ''ADT'', msh_9_2 = Some ''A01'', msh_9_3 = Some ''ADT_A01''\<rparr>,
              msh_10 = Some ''12345''\<rparr>"
  have "\<exists>m1 m2 m3 m10.
         msh_9_1 (msh_9 ?ok) = Some m1 \<and> msh_9_2 (msh_9 ?ok) = Some m2 \<and>
         msh_9_3 (msh_9 ?ok) = Some m3 \<and> msh_10 ?ok = Some m10 \<and>
         length m1 = 3 \<and> length m2 = 3 \<and> length m3 = 7 \<and> length m10 \<le> 199"
    by simp
  then have "checkMSH ?ok = Inr ?ok"
    using checkMSH_returns_unchanged_or_throws [of ?ok] by blast
  moreover have "checkMSH \<lparr>msh_9 = \<lparr>msh_9_1 = Some ''ADT'', msh_9_2 = Some ''A01'', msh_9_3 = None\<rparr>,
               msh_10 = Some ''12345''\<rparr>
     = Inl (PlainError ''MSH.1 must be one character in length.'')"
    by (simp add: checkMSH_def)
  ultimately show ?thesis by simp
qed

text \<open>
  C10. A \<^verbatim>\<open>msh_10\<close> of exactly 199 characters is accepted; the error
  \<^verbatim>\<open>'MSH.9.10 must less than 199 characters.'\<close> is raised only for a \<^verbatim>\<open>msh_10\<close> longer than
  199; and acceptance needs \<^verbatim>\<open>msh_9_3\<close>, the subfield outside the declared interface, to be
  defined with exactly 7 characters.
\<close>

theorem checkMSH_msh_10_bound_and_msh_9_3:
  "(length m1 = 3 \<and> length m2 = 3 \<and> length m3 = 7 \<and> length m10 = 199 \<longrightarrow>
      checkMSH \<lparr>msh_9 = \<lparr>msh_9_1 = Some m1, msh_9_2 = Some m2, msh_9_3 = Some m3\<rparr>,
                msh_10 = Some m10\<rparr>
        = Inr \<lparr>msh_9 = \<lparr>msh_9_1 = Some m1, msh_9_2 = Some m2, msh_9_3 = Some m3\<rparr>,
                msh_10 = Some m10\<rparr>) \<and>
   (checkMSH msh = Inl (PlainError ''MSH.9.10 must less than 199 characters.'') \<longrightarrow>
      (\<exists>m. msh_10 msh = Some m \<and> length m > 199)) \<and>
   (checkMSH msh = Inr r \<longrightarrow> (\<exists>m. msh_9_3 (msh_9 msh) = Some m \<and> length m = 7)) \<and>
   (msh_9_3 (msh_9 msh) = None \<longrightarrow>
      checkMSH msh = Inl (PlainError ''MSH.1 must be one character in length.''))"
  by (auto simp: checkMSH_def split: option.splits if_splits)

theorem checkMSH_msh_10_bound_and_msh_9_3_witness:
  "checkMSH \<lparr>msh_9 = \<lparr>msh_9_1 = Some ''ACK'', msh_9_2 = Some ''A01'', msh_9_3 = Some ''ACK_A01''\<rparr>,
             msh_10 = Some (replicate 199 CHR ''x'')\<rparr>
     = Inr \<lparr>msh_9 = \<lparr>msh_9_1 = Some ''ACK'', msh_9_2 = Some ''A01'', msh_9_3 = Some ''ACK_A01''\<rparr>,
             msh_10 = Some (replicate 199 CHR ''x'')\<rparr>
   \<and> checkMSH \<lparr>msh_9 = \<lparr>msh_9_1 = Some ''ACK'', msh_9_2 = Some ''A01'', msh_9_3 = Some ''ACK_A01''\<rparr>,
               msh_10 = Some (replicate 200 CHR ''x'')\<rparr>
     = Inl (PlainError ''MSH.9.10 must less than 199 characters.'')
   \<and> checkMSH \<lparr>msh_9 = \<lparr>msh_9_1 = Some ''ACK'', msh_9_2 = Some ''A01'', msh_9_3 = None\<rparr>,
               msh_10 = Some ''1''\<rparr>
     = Inl (PlainError ''MSH.1 must be one character in length.'')"
proof -
  have a: "length ''ACK'' = 3 \<and> length ''A01'' = 3 \<and> length ''ACK_A01'' = 7 \<and>
           length (replicate 199 CHR ''x'') = 199"
    by simp
  have "checkMSH \<lparr>msh_9 = \<lparr>msh_9_1 = Some ''ACK'', msh_9_2 = Some ''A01'', msh_9_3 = Some ''ACK_A01''\<rparr>,
             msh_10 = Some (replicate 199 CHR ''x'')\<rparr>
     = Inr \<lparr>msh_9 = \<lparr>msh_9_1 = Some ''ACK'', msh_9_2 = Some ''A01'', msh_9_3 = Some ''ACK_A01''\<rparr>,
             msh_10 = Some (replicate 199 CHR ''x'')\<rparr>"
    using a checkMSH_msh_10_bound_and_msh_9_3
            [of "''ACK''" "''A01''" "''ACK_A01''" "replicate 199 CHR ''x''"]
    by blast
  moreover have "checkMSH \<lparr>msh_9 = \<lparr>msh_9_1 = Some ''ACK'', msh_9_2 = Some ''A01'', msh_9_3 = Some ''ACK_A01''\<rparr>,
               msh_10 = Some (replicate 200 CHR ''x'')\<rparr>
     = Inl (PlainError ''MSH.9.10 must less than 199 characters.'')"
    by (simp add: checkMSH_def)
  moreover have "checkMSH \<lparr>msh_9 = \<lparr>msh_9_1 = Some ''ACK'', msh_9_2 = Some ''A01'', msh_9_3 = None\<rparr>,
               msh_10 = Some ''1''\<rparr>
     = Inl (PlainError ''MSH.1 must be one character in length.'')"
    by (simp add: checkMSH_def)
  ultimately show ?thesis by simp
qed

section \<open>Properties of the data handler\<close>

lemma dataLoop_buffer_empty: "responseBuffer (dataLoop st) = []"
proof (induction st rule: dataLoop.induct)
  case (1 st)
  then show ?case by (cases "responseBuffer st = []") (simp_all add: dataLoop.simps [of st])
qed

lemma dataLoopBody_no_handler:
  "\<not> handler st \<Longrightarrow>
   \<not> handler (dataLoopBody st) \<and> acknowledged (dataLoopBody st) = acknowledged st \<and>
   events (dataLoopBody st) = events st \<and> handled (dataLoopBody st) = handled st"
  by (simp add: dataLoopBody_def Let_def)

lemma dataLoop_no_handler:
  "\<not> handler st \<Longrightarrow>
   acknowledged (dataLoop st) = acknowledged st \<and> events (dataLoop st) = events st \<and>
   handled (dataLoop st) = handled st"
proof (induction st rule: dataLoop.induct)
  case (1 st)
  show ?case
  proof (cases "responseBuffer st = []")
    case True
    then show ?thesis by (simp add: dataLoop.simps [of st])
  next
    case False
    from dataLoopBody_no_handler [OF "1.prems"] "1.IH" [OF False] False
    show ?thesis by (simp add: dataLoop.simps [of st])
  qed
qed

text \<open>
  C4, on the code. Whatever the buffer and the chunk, the buffer is empty when the data
  handler returns: a round without an end marker removes the first character, so nothing
  is kept for the next chunk. A frame delivered as the two chunks \<open>VT MSA|AA\<close> and
  \<open>|1 FS CR\<close> gives no payload after the first chunk and the payload \<open>|1\<close> after the
  second; delivered as one chunk it gives the payload \<open>MSA|AA|1\<close>.
\<close>

theorem onData_discards_partial_frame:
  "responseBuffer (onData st buffer) = [] \<and>
   handled (onData (newOutbound exampleClientOptions exampleListenerOptions True ''node1'')
              (PROTOCOL_MLLP_HEADER @ ''MSA|AA'')) = [] \<and>
   handled (onData (onData (newOutbound exampleClientOptions exampleListenerOptions True ''node1'')
                      (PROTOCOL_MLLP_HEADER @ ''MSA|AA''))
              (''|1'' @ PROTOCOL_MLLP_FOOTER)) = [''|1''] \<and>
   handled (onData (newOutbound exampleClientOptions exampleListenerOptions True ''node1'')
              (PROTOCOL_MLLP_HEADER @ ''MSA|AA'' @ ''|1'' @ PROTOCOL_MLLP_FOOTER)) = [''MSA|AA|1'']"
proof -
  have "responseBuffer (onData st buffer) = []"
    by (simp add: onData_def close_def emit_def dataLoop_buffer_empty)
  moreover have "handled (onData (newOutbound exampleClientOptions exampleListenerOptions True ''node1'')
              (PROTOCOL_MLLP_HEADER @ ''MSA|AA'')) = []"
    by code_simp
  moreover have "handled (onData (onData (newOutbound exampleClientOptions exampleListenerOptions True ''node1'')
                      (PROTOCOL_MLLP_HEADER @ ''MSA|AA''))
              (''|1'' @ PROTOCOL_MLLP_FOOTER)) = [''|1'']"
    by code_simp
  moreover have "handled (onData (newOutbound exampleClientOptions exampleListenerOptions True ''node1'')
              (PROTOCOL_MLLP_HEADER @ ''MSA|AA'' @ ''|1'' @ PROTOCOL_MLLP_FOOTER)) = [''MSA|AA|1'']"
    by code_simp
  ultimately show ?thesis by blast
qed

text \<open>
  C5, on the code. Without a handler the loop changes neither the counter nor the event
  log, whatever the buffer holds: a complete frame received by a channel built without a
  handler leaves \<open>acknowledged\<close> at 0 and emits only the closing event, while the same
  frame on a channel with a handler counts 1.
\<close>

theorem onData_without_handler_counts_nothing:
  "acknowledged (dataLoop (st\<lparr>handler := False\<rparr>)) = acknowledged st \<and>
   events (dataLoop (st\<lparr>handler := False\<rparr>)) = events st \<and>
   acknowledged (onData (newOutbound exampleClientOptions exampleListenerOptions False ''node1'')
                   (PROTOCOL_MLLP_HEADER @ ''MSA|AA'' @ PROTOCOL_MLLP_FOOTER)) = 0 \<and>
   events (onData (newOutbound exampleClientOptions exampleListenerOptions False ''node1'')
             (PROTOCOL_MLLP_HEADER @ ''MSA|AA'' @ PROTOCOL_MLLP_FOOTER)) = [ClientClose] \<and>
   acknowledged (onData (newOutbound exampleClientOptions exampleListenerOptions True ''node1'')
                   (PROTOCOL_MLLP_HEADER @ ''MSA|AA'' @ PROTOCOL_MLLP_FOOTER)) = 1"
proof -
  have "\<not> handler (st\<lparr>handler := False\<rparr>)" by simp
  from dataLoop_no_handler [OF this]
  have "acknowledged (dataLoop (st\<lparr>handler := False\<rparr>)) = acknowledged st"
    "events (dataLoop (st\<lparr>handler := False\<rparr>)) = events st" by simp_all
  moreover have "acknowledged (onData (newOutbound exampleClientOptions exampleListenerOptions False ''node1'')
                   (PROTOCOL_MLLP_HEADER @ ''MSA|AA'' @ PROTOCOL_MLLP_FOOTER)) = 0"
    by code_simp
  moreover have "events (onData (newOutbound exampleClientOptions exampleListenerOptions False ''node1'')
             (PROTOCOL_MLLP_HEADER @ ''MSA|AA'' @ PROTOCOL_MLLP_FOOTER)) = [ClientClose]"
    by code_simp
  moreover have "acknowledged (onData (newOutbound exampleClientOptions exampleListenerOptions True ''node1'')
                   (PROTOCOL_MLLP_HEADER @ ''MSA|AA'' @ PROTOCOL_MLLP_FOOTER)) = 1"
    by code_simp
  ultimately show ?thesis by blast
qed

section \<open>Properties of the timeout handler\<close>







section \<open>Properties of the socket pool\<close>















end
